theory Spec2Isabelle
  imports Main
begin

section \<open>Types, values and reflection data\<close>

text \<open>
  The Go package works on \<open>reflect.Type\<close> and \<open>reflect.Value\<close>. A type is modelled by the
  part of it the package inspects: its kind, its name and, for a pointer, its element type.
  The remaining reflection data of the program (struct fields with their \<open>provide\<close> tag,
  the \<open>PleaseProvide\<close> method, whether an interface implements \<open>error\<close>) is the record
  \<open>env\<close>, which every function that reflects takes as its first argument.
\<close>

datatype kind = Interface | Ptr | Struct | Map | Chan | Other

datatype ty = Iface string | StructT string | MapT string | ChanT string | Basic string | PtrTo ty

fun Kind :: "ty \<Rightarrow> kind" where
  "Kind (Iface n) = Interface"
| "Kind (StructT n) = Struct"
| "Kind (MapT n) = Map"
| "Kind (ChanT n) = Chan"
| "Kind (Basic n) = Other"
| "Kind (PtrTo t) = Ptr"

fun Elem :: "ty \<Rightarrow> ty" where
  "Elem (PtrTo t) = t"
| "Elem t = t"

text \<open>
  Values. \<open>VNil\<close> is the nil pointer, interface, map or channel; \<open>VZero\<close> the zero value of
  a type that has no nil; \<open>VPtr a\<close> a pointer to the heap cell \<open>a\<close>; \<open>VRef a\<close> the
  addressable value \<open>reflect.Value.Elem\<close> returns for a pointer: it denotes the
  contents of cell \<open>a\<close> at the moment it is read (\<open>load\<close>).
\<close>

datatype val = VNil | VZero | VStr string | VErr string | VPtr nat | VRef nat | VStruct "val list"

type_synonym heap = "val list"

type_synonym gofun = "heap \<Rightarrow> val list \<Rightarrow> heap \<times> val list"

fun load :: "heap \<Rightarrow> val \<Rightarrow> val" where
  "load h (VRef a) = (if a < length h then h ! a else VZero)"
| "load h v = v"

record initMethod =
  m_ins :: "ty list"
  m_outs :: "ty list"
  m_body :: gofun

record env =
  implementsError :: "ty \<Rightarrow> bool"
  structFields :: "string \<Rightarrow> (ty \<times> string option) list"
  pleaseProvide :: "ty \<Rightarrow> initMethod option"

definition isErrorType :: "env \<Rightarrow> ty \<Rightarrow> bool" where
  "isErrorType env typ = (Kind typ = Interface \<and> implementsError env typ)"

definition isReferenceType :: "ty \<Rightarrow> bool" where
  "isReferenceType typ =
     (let k = Kind typ in k = Ptr \<or> k = Interface \<or> k = Map \<or> k = Chan)"

definition zeroField :: "ty \<Rightarrow> val" where
  "zeroField t = (if isReferenceType t then VNil else VZero)"

fun zeroValue :: "env \<Rightarrow> ty \<Rightarrow> val" where
  "zeroValue env (StructT n) = VStruct (map (\<lambda>f. zeroField (fst f)) (structFields env n))"
| "zeroValue env t = zeroField t"

section \<open>Tasks, states and the Provider\<close>

datatype task = Task (Type: ty) (Complete: bool)

datatype Field = Field (fieldType: ty) (Index: nat) (MustBeComplete: bool)

text \<open>
  The \<open>Do\<close> closures of the source, defunctionalised: each constructor carries what the
  closure captures. \<open>RuleDo k\<close> is the \<open>doFn\<close> of \<open>customProvide\<close>; its captured
  variables (\<open>v\<close>, \<open>ins\<close>, \<open>outs\<close> and the latch \<open>alreadyDone\<close>) are the \<open>k\<close>-th
  \<open>rule_closure\<close> of the Provider, shared by all tasks of the rule.
  \<open>PtrPartialDo\<close>, \<open>PtrCompleteDo\<close> and \<open>ValPartialDo\<close> are the three closures of
  \<open>autoProvide\<close>; \<open>PtrCompleteDo typ providedFields ins\<close> has \<open>ins = None\<close> when
  \<open>hasInitFn\<close> is false.
\<close>

datatype action =
    RuleDo nat
  | PtrPartialDo ty
  | PtrCompleteDo ty "Field list" "ty list option"
  | ValPartialDo ty

record state =
  Done :: bool
  InProgress :: bool
  DependsOn :: "task list"
  Do :: "action option"

record initializer =
  init_Type :: ty
  init_Partial :: state
  init_Complete :: state

record rule_closure =
  fn :: gofun
  ins :: "ty list"
  outs :: "(ty \<times> bool) list"
  alreadyDone :: bool

text \<open>
  History of a Provider, kept beside the data for the statements about what ran and when;
  no function of the model reads it.
  \<open>Called k\<close>: the constructor of rule \<open>k\<close> was invoked; \<open>InitCalled t\<close>: the
  \<open>PleaseProvide\<close> method of \<open>t\<close> was invoked; \<open>Stored t\<close>: \<open>values[t]\<close> was
  assigned; \<open>Exec t deps pending\<close>: the scheduler ran the \<open>Do\<close> of task \<open>t\<close>, whose
  \<open>DependsOn\<close> was \<open>deps\<close>, of which \<open>pending\<close> were not Done at that moment.
\<close>

datatype event =
    Called nat
  | InitCalled ty
  | Stored ty
  | Exec task "task list" "task list"

record Provider =
  tasks :: "task \<rightharpoonup> state"
  values' :: "ty \<rightharpoonup> val"
  closures :: "rule_closure list"
  heap :: heap
  trace :: "event list"

datatype error =
    NotAFunction
  | Conflict ty
  | BadArgument
  | ErrorRequested ty
  | ShouldNeverHappen
  | Cycle "ty list"
  | CannotAutoProvide ty
  | UnrecognizedTag string ty
  | CircularNonReference ty ty
  | MustOnlyReturnErrors ty ty
  | NilAutoPointer ty
  | Returned val
  | Panic

definition emptyProvider :: Provider where
  "emptyProvider = \<lparr>tasks = Map.empty, values' = Map.empty, closures = [], heap = [], trace = []\<rparr>"

definition newState :: "task list \<Rightarrow> action option \<Rightarrow> state" where
  "newState deps act = \<lparr>Done = False, InProgress = False, DependsOn = deps, Do = act\<rparr>"

definition is_done :: "Provider \<Rightarrow> task \<Rightarrow> bool" where
  "is_done p t = (case tasks p t of None \<Rightarrow> False | Some s \<Rightarrow> Done s)"

section \<open>customProvide\<close>

datatype provideFn = NotFunc | Func "ty list" "ty list" gofun

definition customProvide ::
  "env \<Rightarrow> nat \<Rightarrow> provideFn \<Rightarrow> error + (rule_closure \<times> initializer list)" where
  "customProvide env k provideFn =
     (case provideFn of
        NotFunc \<Rightarrow> Inl NotAFunction
      | Func tins touts v \<Rightarrow>
          let deps = map (\<lambda>t. Task t True) tins;
              os = map (\<lambda>out. (out, isErrorType env out)) touts
          in Inr (\<lparr>fn = v, ins = tins, outs = os, alreadyDone = False\<rparr>,
                  map (\<lambda>out. \<lparr>init_Type = fst out,
                               init_Partial = newState deps (Some (RuleDo k)),
                               init_Complete = newState [Task (fst out) False] None\<rparr>)
                      (filter (\<lambda>out. \<not> snd out) os)))"

fun storeOutputs :: "((ty \<times> bool) \<times> val) list \<Rightarrow> Provider \<Rightarrow> error option \<times> Provider" where
  "storeOutputs [] p = (None, p)"
| "storeOutputs ((out, v) # rest) p =
     (if snd out then (if v \<noteq> VNil then (Some (Returned v), p) else storeOutputs rest p)
      else storeOutputs rest
             (p\<lparr>values' := (values' p)(fst out \<mapsto> v), trace := trace p @ [Stored (fst out)]\<rparr>))"

definition ruleDo :: "nat \<Rightarrow> Provider \<Rightarrow> error option \<times> Provider" where
  "ruleDo k p =
     (if k < length (closures p) then
        (let c = closures p ! k in
         if alreadyDone c then (None, p)
         else
           let p1 = p\<lparr>closures := (closures p)[k := c\<lparr>alreadyDone := True\<rparr>]\<rparr>;
               inputs = map (values' p1) (ins c)
           in if None \<in> set inputs then (Some Panic, p1)
              else
                let r = fn c (heap p1) (map (\<lambda>x. load (heap p1) (the x)) inputs);
                    p2 = p1\<lparr>heap := fst r, trace := trace p1 @ [Called k]\<rparr>
                in if length (snd r) \<noteq> length (outs c) then (Some Panic, p2)
                   else storeOutputs (zip (outs c) (snd r)) p2)
      else (Some Panic, p))"

section \<open>autoProvide\<close>

fun scanFields :: "ty \<Rightarrow> nat \<Rightarrow> (ty \<times> string option) list \<Rightarrow> error + Field list" where
  "scanFields elem i [] = Inr []"
| "scanFields elem i (field # rest) =
     (case snd field of
        None \<Rightarrow> scanFields elem (Suc i) rest
      | Some tag \<Rightarrow>
          let allowCircular = (tag = ''circular'') in
          if \<not> allowCircular \<and> tag \<noteq> [] then Inl (UnrecognizedTag tag elem)
          else if allowCircular \<and> \<not> isReferenceType (fst field)
          then Inl (CircularNonReference elem (fst field))
          else (case scanFields elem (Suc i) rest of
                  Inl e \<Rightarrow> Inl e
                | Inr fs \<Rightarrow> Inr (Field (fst field) i (\<not> allowCircular) # fs)))"

definition providedFieldsOf :: "env \<Rightarrow> ty \<Rightarrow> error + Field list" where
  "providedFieldsOf env elem =
     (case elem of StructT n \<Rightarrow> scanFields elem 0 (structFields env n) | _ \<Rightarrow> Inr [])"

fun checkInitOuts :: "env \<Rightarrow> ty \<Rightarrow> ty list \<Rightarrow> error option" where
  "checkInitOuts env typ [] = None"
| "checkInitOuts env typ (out # rest) =
     (if \<not> isErrorType env out then Some (MustOnlyReturnErrors typ out)
      else checkInitOuts env typ rest)"

definition autoProvidePtr :: "env \<Rightarrow> ty \<Rightarrow> error + initializer" where
  "autoProvidePtr env typ =
     (case providedFieldsOf env (Elem typ) of
        Inl e \<Rightarrow> Inl e
      | Inr providedFields \<Rightarrow>
          (case (case pleaseProvide env typ of
                   None \<Rightarrow> Inr None
                 | Some initFn \<Rightarrow>
                     (case checkInitOuts env typ (m_outs initFn) of
                        Some e \<Rightarrow> Inl e
                      | None \<Rightarrow> Inr (Some (m_ins initFn)))) of
             Inl e \<Rightarrow> Inl e
           | Inr initIns \<Rightarrow>
               if providedFields = [] \<and> initIns = None then Inl (CannotAutoProvide typ)
               else
                 let deps = Task typ False
                       # map (\<lambda>field. Task (fieldType field) (MustBeComplete field)) providedFields
                       @ map (\<lambda>i. Task i True) (case initIns of None \<Rightarrow> [] | Some is \<Rightarrow> is)
                 in Inr \<lparr>init_Type = typ,
                         init_Partial = newState [] (Some (PtrPartialDo typ)),
                         init_Complete =
                           newState deps (Some (PtrCompleteDo typ providedFields initIns))\<rparr>))"

definition autoProvide :: "env \<Rightarrow> ty \<Rightarrow> error + initializer" where
  "autoProvide env typ =
     (case Kind typ of
        Interface \<Rightarrow> Inl (CannotAutoProvide typ)
      | Ptr \<Rightarrow> autoProvidePtr env typ
      | _ \<Rightarrow>
          Inr \<lparr>init_Type = typ,
               init_Partial = newState [Task (PtrTo typ) True] (Some (ValPartialDo typ)),
               init_Complete = newState [Task typ False] None\<rparr>)"

text \<open>The three closures \<open>autoProvide\<close> returns as \<open>Do\<close>.\<close>

definition ptrPartialDo :: "env \<Rightarrow> ty \<Rightarrow> Provider \<Rightarrow> error option \<times> Provider" where
  "ptrPartialDo env typ p =
     (None, p\<lparr>heap := heap p @ [zeroValue env (Elem typ)],
              values' := (values' p)(typ \<mapsto> VPtr (length (heap p))),
              trace := trace p @ [Stored typ]\<rparr>)"

fun setFields :: "(ty \<rightharpoonup> val) \<Rightarrow> heap \<Rightarrow> Field list \<Rightarrow> val list \<Rightarrow> error option \<times> val list" where
  "setFields vs h [] fs = (None, fs)"
| "setFields vs h (field # rest) fs =
     (case vs (fieldType field) of
        None \<Rightarrow> (Some Panic, fs)
      | Some x \<Rightarrow>
          if Index field < length fs then setFields vs h rest (fs[Index field := load h x])
          else (Some Panic, fs))"

fun firstNonNil :: "val list \<Rightarrow> error option" where
  "firstNonNil [] = None"
| "firstNonNil (out # rest) = (if out \<noteq> VNil then Some (Returned out) else firstNonNil rest)"

definition callInit :: "env \<Rightarrow> ty \<Rightarrow> ty list option \<Rightarrow> Provider \<Rightarrow> error option \<times> Provider" where
  "callInit env typ initIns p =
     (case initIns of
        None \<Rightarrow> (None, p)
      | Some is \<Rightarrow>
          (case pleaseProvide env typ of
             None \<Rightarrow> (Some Panic, p)
           | Some initFn \<Rightarrow>
               let inputs = values' p typ # map (values' p) is in
               if None \<in> set inputs then (Some Panic, p)
               else
                 let r = m_body initFn (heap p) (map (\<lambda>x. load (heap p) (the x)) inputs);
                     p1 = p\<lparr>heap := fst r, trace := trace p @ [InitCalled typ]\<rparr>
                 in (firstNonNil (snd r), p1)))"

definition ptrCompleteDo ::
  "env \<Rightarrow> ty \<Rightarrow> Field list \<Rightarrow> ty list option \<Rightarrow> Provider \<Rightarrow> error option \<times> Provider" where
  "ptrCompleteDo env typ providedFields initIns p =
     (if providedFields \<noteq> [] then
        (case values' p typ of
           Some (VPtr a) \<Rightarrow>
             if a < length (heap p) then
               (case heap p ! a of
                  VStruct fs \<Rightarrow>
                    (case setFields (values' p) (heap p) providedFields fs of
                       (Some e, fs') \<Rightarrow> (Some e, p\<lparr>heap := (heap p)[a := VStruct fs']\<rparr>)
                     | (None, fs') \<Rightarrow>
                         callInit env typ initIns (p\<lparr>heap := (heap p)[a := VStruct fs']\<rparr>))
                | _ \<Rightarrow> (Some Panic, p))
             else (Some Panic, p)
         | _ \<Rightarrow> (Some Panic, p))
      else callInit env typ initIns p)"

definition valPartialDo :: "ty \<Rightarrow> Provider \<Rightarrow> error option \<times> Provider" where
  "valPartialDo typ p =
     (case values' p (PtrTo typ) of
        Some VNil \<Rightarrow> (Some (NilAutoPointer typ), p)
      | Some (VPtr a) \<Rightarrow>
          (None, p\<lparr>values' := (values' p)(typ \<mapsto> VRef a), trace := trace p @ [Stored typ]\<rparr>)
      | _ \<Rightarrow> (Some Panic, p))"

fun runDo :: "env \<Rightarrow> action \<Rightarrow> Provider \<Rightarrow> error option \<times> Provider" where
  "runDo env (RuleDo k) p = ruleDo k p"
| "runDo env (PtrPartialDo typ) p = ptrPartialDo env typ p"
| "runDo env (PtrCompleteDo typ providedFields initIns) p =
     ptrCompleteDo env typ providedFields initIns p"
| "runDo env (ValPartialDo typ) p = valPartialDo typ p"

section \<open>The Provider: AddRule, the scheduler and Provide\<close>

fun install :: "Provider \<Rightarrow> initializer list \<Rightarrow> error option \<times> Provider" where
  "install p [] = (None, p)"
| "install p (init # rest) =
     (if tasks p (Task (init_Type init) False) \<noteq> None then (Some (Conflict (init_Type init)), p)
      else if tasks p (Task (init_Type init) True) \<noteq> None
      then (Some (Conflict (init_Type init)), p)
      else install
             (p\<lparr>tasks := (tasks p)(Task (init_Type init) False \<mapsto> init_Partial init,
                                     Task (init_Type init) True \<mapsto> init_Complete init)\<rparr>)
             rest)"

definition AddRule :: "env \<Rightarrow> Provider \<Rightarrow> provideFn \<Rightarrow> error option \<times> Provider" where
  "AddRule env p provideFn =
     (case customProvide env (length (closures p)) provideFn of
        Inl e \<Rightarrow> (Some e, p)
      | Inr (c, initializers) \<Rightarrow> install (p\<lparr>closures := closures p @ [c]\<rparr>) initializers)"

fun addRules :: "env \<Rightarrow> Provider \<Rightarrow> provideFn list \<Rightarrow> error + Provider" where
  "addRules env p [] = Inr p"
| "addRules env p (provideFn # rest) =
     (case AddRule env p provideFn of
        (Some e, p') \<Rightarrow> Inl e
      | (None, p') \<Rightarrow> addRules env p' rest)"

definition NewProvider :: "env \<Rightarrow> provideFn list \<Rightarrow> error + Provider" where
  "NewProvider env provideFns = addRules env emptyProvider provideFns"

definition lookupState :: "env \<Rightarrow> Provider \<Rightarrow> task \<Rightarrow> error + (state \<times> Provider)" where
  "lookupState env p t =
     (case tasks p t of
        Some s \<Rightarrow> Inr (s, p)
      | None \<Rightarrow>
          (case autoProvide env (Type t) of
             Inl e \<Rightarrow> Inl e
           | Inr init \<Rightarrow>
               let p' = p\<lparr>tasks := (tasks p)(Task (Type t) False \<mapsto> init_Partial init,
                                               Task (Type t) True \<mapsto> init_Complete init)\<rparr>
               in Inr (case tasks p' t of Some s \<Rightarrow> s | None \<Rightarrow> newState [] None, p')))"

definition cycleFrom :: "task \<Rightarrow> task list \<Rightarrow> ty list" where
  "cycleFrom t stack = map Type (dropWhile (\<lambda>x. x \<noteq> t) stack)"

fun scheduleDeps ::
  "env \<Rightarrow> Provider \<Rightarrow> task list \<Rightarrow> task \<Rightarrow> task list \<Rightarrow> bool
     \<Rightarrow> (error \<times> Provider) + (Provider \<times> task list \<times> bool)" where
  "scheduleDeps env p stack t [] hasDeps = Inr (p, stack, hasDeps)"
| "scheduleDeps env p stack t (dep # deps) hasDeps =
     (case lookupState env p dep of
        Inl e \<Rightarrow> Inl (e, p)
      | Inr (depState, p1) \<Rightarrow>
          if Done depState then scheduleDeps env p1 stack t deps hasDeps
          else if InProgress depState then Inl (Cycle (cycleFrom t stack), p1)
          else scheduleDeps env p1 (stack @ [dep]) t deps True)"

definition markDone :: "Provider \<Rightarrow> task \<Rightarrow> state \<Rightarrow> Provider" where
  "markDone p t s = p\<lparr>tasks := (tasks p)(t \<mapsto> s\<lparr>Done := True, DependsOn := [], Do := None\<rparr>)\<rparr>"

definition noteExec :: "Provider \<Rightarrow> task \<Rightarrow> state \<Rightarrow> Provider" where
  "noteExec p t s =
     p\<lparr>trace := trace p @ [Exec t (DependsOn s) (filter (\<lambda>d. \<not> is_done p d) (DependsOn s))]\<rparr>"

definition finishTask ::
  "env \<Rightarrow> Provider \<Rightarrow> task list \<Rightarrow> task \<Rightarrow> state \<Rightarrow> task list
     \<Rightarrow> (error \<times> Provider) + (Provider \<times> task list \<times> task list)" where
  "finishTask env p stack t s newlyDone =
     (if \<not> Done s \<and> InProgress s then
        (case Do s of
           Some act \<Rightarrow>
             (case runDo env act (noteExec p t s) of
                (Some e, p') \<Rightarrow> Inl (e, p')
              | (None, p') \<Rightarrow> Inr (markDone p' t s, butlast stack, newlyDone @ [t]))
         | None \<Rightarrow> Inr (markDone p t s, butlast stack, newlyDone))
      else Inr (p, butlast stack, newlyDone))"

definition doIter ::
  "env \<Rightarrow> Provider \<Rightarrow> task list \<Rightarrow> task list
     \<Rightarrow> (error \<times> Provider) + (Provider \<times> task list \<times> task list)" where
  "doIter env p stack newlyDone =
     (let t = last stack in
      case lookupState env p t of
        Inl e \<Rightarrow> Inl (e, p)
      | Inr (s, p1) \<Rightarrow>
          if \<not> Done s \<and> \<not> InProgress s then
            (case scheduleDeps env p1 stack t (DependsOn s) False of
               Inl ep \<Rightarrow> Inl ep
             | Inr (p2, stack2, hasDeps) \<Rightarrow>
                 let s' = s\<lparr>InProgress := True\<rparr>;
                     p3 = p2\<lparr>tasks := (tasks p2)(t \<mapsto> s')\<rparr>
                 in if hasDeps then Inr (p3, stack2, newlyDone)
                    else finishTask env p3 stack2 t s' newlyDone)
          else finishTask env p1 stack t s newlyDone)"

text \<open>
  The loop of \<open>do\<close> has no bound the code states, so it runs on fuel: \<open>None\<close> is a walk
  that has not returned after \<open>n\<close> iterations.
\<close>

fun doLoop ::
  "env \<Rightarrow> nat \<Rightarrow> Provider \<Rightarrow> task list \<Rightarrow> task list
     \<Rightarrow> ((error \<times> Provider) + (task list \<times> Provider)) option" where
  "doLoop env n p [] newlyDone = Some (Inr (newlyDone, p))"
| "doLoop env 0 p (t # stack) newlyDone = None"
| "doLoop env (Suc n) p (t # stack) newlyDone =
     (case doIter env p (t # stack) newlyDone of
        Inl ep \<Rightarrow> Some (Inl ep)
      | Inr (p', stack', newlyDone') \<Rightarrow> doLoop env n p' stack' newlyDone')"

definition do' :: "env \<Rightarrow> nat \<Rightarrow> Provider \<Rightarrow> task \<Rightarrow> ((error \<times> Provider) + (task list \<times> Provider)) option" where
  "do' env n p t = doLoop env n p [t] []"

fun completeLoop ::
  "env \<Rightarrow> nat \<Rightarrow> nat \<Rightarrow> Provider \<Rightarrow> task list \<Rightarrow> nat \<Rightarrow> (error option \<times> Provider) option" where
  "completeLoop env n k p goals i =
     (if i < length goals then
        (case k of
           0 \<Rightarrow> None
         | Suc k' \<Rightarrow>
             (case do' env n p (goals ! i) of
                None \<Rightarrow> None
              | Some (Inl (e, p')) \<Rightarrow> Some (Some e, p')
              | Some (Inr (newlyDone, p')) \<Rightarrow>
                  completeLoop env n k' p'
                    (goals @ map (\<lambda>done. Task (Type done) True)
                               (filter (\<lambda>done. \<not> Complete done) newlyDone))
                    (Suc i)))
      else Some (None, p))"

definition complete :: "env \<Rightarrow> nat \<Rightarrow> Provider \<Rightarrow> ty \<Rightarrow> (error option \<times> Provider) option" where
  "complete env n p typ = completeLoop env n n p [Task typ True] 0"

text \<open>
  An argument of \<open>Provide\<close>: anything that is not a pointer, a nil pointer, or a pointer to
  the caller's variable \<open>x\<close> of type \<open>t\<close>. The caller's variables are a map from their
  addresses to values; \<open>v.Set(value)\<close> assigns one.
\<close>

datatype arg = NotAPointer | NilPointer | PointerTo nat ty

fun Provide ::
  "env \<Rightarrow> nat \<Rightarrow> Provider \<Rightarrow> (nat \<rightharpoonup> val) \<Rightarrow> arg list
     \<Rightarrow> (error option \<times> Provider \<times> (nat \<rightharpoonup> val)) option" where
  "Provide env n p vars [] = Some (None, p, vars)"
| "Provide env n p vars (NotAPointer # rest) = Some (Some BadArgument, p, vars)"
| "Provide env n p vars (NilPointer # rest) = Some (Some BadArgument, p, vars)"
| "Provide env n p vars (PointerTo x t # rest) =
     (if isErrorType env t then Some (Some (ErrorRequested t), p, vars)
      else
        (case complete env n p t of
           None \<Rightarrow> None
         | Some (Some e, p') \<Rightarrow> Some (Some e, p', vars)
         | Some (None, p') \<Rightarrow>
             (case values' p' t of
                None \<Rightarrow> Some (Some ShouldNeverHappen, p', vars)
              | Some v \<Rightarrow> Provide env n p' (vars(x \<mapsto> load (heap p') v)) rest)))"

section \<open>A concrete program\<close>

text \<open>
  The types, rules and reflection data of a small Go program, used to run the model:
  \<^item> \<open>Foo\<close> has a field \<open>*Bar\<close> tagged \<open>provide:"circular"\<close>, \<open>Bar\<close> a field \<open>*Foo\<close>
    tagged \<open>provide:""\<close> (the example of the package documentation);
  \<^item> \<open>Self\<close> has a field \<open>*Self\<close> tagged \<open>provide:""\<close>;
  \<^item> \<open>Bad\<close> has a field tagged \<open>provide:"lazy"\<close>, \<open>Loop\<close> a string field tagged
    \<open>provide:"circular"\<close>;
  \<^item> \<open>Both\<close> has a field of type \<open>X\<close> tagged \<open>provide:""\<close> and a method
    \<open>PleaseProvide(Y) error\<close> that fails unless the field holds \<open>"x"\<close>;
  \<^item> \<open>Cell\<close> has an untagged field and an empty \<open>PleaseProvide()\<close>.
\<close>

definition tErr :: ty where "tErr = Iface ''error''"
definition tX :: ty where "tX = Basic ''X''"
definition tY :: ty where "tY = Basic ''Y''"
definition tA :: ty where "tA = Basic ''A''"
definition tB :: ty where "tB = Basic ''B''"
definition pFoo :: ty where "pFoo = PtrTo (StructT ''Foo'')"
definition pBar :: ty where "pBar = PtrTo (StructT ''Bar'')"
definition pSelf :: ty where "pSelf = PtrTo (StructT ''Self'')"
definition pBoth :: ty where "pBoth = PtrTo (StructT ''Both'')"
definition tCell :: ty where "tCell = StructT ''Cell''"

definition bothInit :: initMethod where
  "bothInit = \<lparr>m_ins = [Basic ''Y''], m_outs = [Iface ''error''],
      m_body = (\<lambda>h xs. (h, [case xs of
                                 VPtr a # rest \<Rightarrow>
                                   if a < length h \<and> h ! a = VStruct [VStr ''x''] then VNil
                                   else VErr ''field not set''
                               | _ \<Rightarrow> VErr ''field not set'']))\<rparr>"

definition cellInit :: initMethod where
  "cellInit = \<lparr>m_ins = [], m_outs = [], m_body = (\<lambda>h xs. (h, []))\<rparr>"

definition exEnv :: env where
  "exEnv = \<lparr>implementsError = (\<lambda>t. t = Iface ''error''),
      structFields = (\<lambda>n.
        if n = ''Foo'' then [(PtrTo (StructT ''Bar''), Some ''circular'')]
        else if n = ''Bar'' then [(PtrTo (StructT ''Foo''), Some [])]
        else if n = ''Self'' then [(PtrTo (StructT ''Self''), Some [])]
        else if n = ''Bad'' then [(Basic ''int'', None), (Basic ''int'', Some ''lazy'')]
        else if n = ''Loop'' then [(Basic ''string'', Some ''circular'')]
        else if n = ''Both'' then [(Basic ''X'', Some [])]
        else if n = ''Cell'' then [(Basic ''int'', None)]
        else []),
      pleaseProvide = (\<lambda>t.
        if t = PtrTo (StructT ''Both'') then Some bothInit
        else if t = PtrTo (StructT ''Cell'') then Some cellInit
        else None)\<rparr>"

text \<open>\<open>func() X\<close>, \<open>func() (X, Y)\<close>, \<open>func() (X, error, Y)\<close> returning a non-nil error,
  \<open>func(B) A\<close>, \<open>func(A) B\<close>, and \<open>func(c *Cell) X\<close>, which assigns the field of
  \<open>c\<close>.\<close>

definition ruleX :: provideFn where
  "ruleX = Func [] [tX] (\<lambda>h xs. (h, [VStr ''x'']))"

definition ruleXY :: provideFn where
  "ruleXY = Func [] [tX, tY] (\<lambda>h xs. (h, [VStr ''x'', VStr ''y'']))"

definition failingRule :: provideFn where
  "failingRule = Func [] [tX, tErr, tY] (\<lambda>h xs. (h, [VStr ''x'', VErr ''boom'', VStr ''y'']))"

definition ruleA :: provideFn where
  "ruleA = Func [tB] [tA] (\<lambda>h xs. (h, [VStr ''a'']))"

definition ruleB :: provideFn where
  "ruleB = Func [tA] [tB] (\<lambda>h xs. (h, [VStr ''b'']))"

definition bump :: provideFn where
  "bump = Func [PtrTo tCell] [tX]
     (\<lambda>h xs. (case xs of [VPtr a] \<Rightarrow> h[a := VStruct [VStr ''1'']] | _ \<Rightarrow> h, [VStr ''x'']))"

text \<open>The state in which the Complete action of \<open>*Both\<close> runs: the pointer is
  allocated, and \<open>X\<close> and \<open>Y\<close> have their values.\<close>

definition bothReady :: Provider where
  "bothReady = emptyProvider\<lparr>
      values' := [PtrTo (StructT ''Both'') \<mapsto> VPtr 0, Basic ''X'' \<mapsto> VStr ''x'',
                  Basic ''Y'' \<mapsto> VStr ''y''],
      heap := [VStruct [VZero]]\<rparr>"

definition providerOf :: "provideFn list \<Rightarrow> Provider" where
  "providerOf provideFns =
     (case NewProvider exEnv provideFns of Inr p \<Rightarrow> p | Inl e \<Rightarrow> emptyProvider)"

text \<open>The Provider that a successful \<open>Provide\<close> returns (\<open>emptyProvider\<close> otherwise).\<close>

definition after :: "Provider \<Rightarrow> arg list \<Rightarrow> Provider" where
  "after p args =
     (case Provide exEnv 50 p Map.empty args of
        Some (None, p', vars) \<Rightarrow> p'
      | _ \<Rightarrow> emptyProvider)"

text \<open>What a reader of \<open>Provide\<close>'s result sees: the error, the history and the caller's
  variables 0, 1 and 2.\<close>

definition observe ::
  "(error option \<times> Provider \<times> (nat \<rightharpoonup> val)) option
     \<Rightarrow> (error option \<times> event list \<times> val option list) option" where
  "observe r = map_option (\<lambda>r. (fst r, trace (fst (snd r)), map (snd (snd r)) [0, 1, 2])) r"

section \<open>Notions used in the statements\<close>

text \<open>The two definition errors of the tag check in \<open>autoProvide\<close>.\<close>

fun tagError :: "error \<Rightarrow> bool" where
  "tagError (UnrecognizedTag tag elem) = True"
| "tagError (CircularNonReference elem t) = True"
| "tagError e = False"

text \<open>An argument \<open>Provide\<close> rejects without resolving it, and the error it returns.\<close>

fun malformed :: "env \<Rightarrow> arg \<Rightarrow> bool" where
  "malformed env (PointerTo x t) = isErrorType env t"
| "malformed env a = True"

fun argError :: "arg \<Rightarrow> error" where
  "argError (PointerTo x t) = ErrorRequested t"
| "argError a = BadArgument"


text \<open>
  The discipline of the walk stack of \<open>do\<close>. A task that is in progress and not Done
  stands on the stack, and, unless it lists itself among its dependencies, all its
  dependencies that are not Done stand above its topmost occurrence.
\<close>

definition stackInv :: "Provider \<Rightarrow> task list \<Rightarrow> bool" where
  "stackInv p stack =
     (\<forall>u s. tasks p u = Some s \<and> InProgress s \<and> \<not> Done s \<longrightarrow>
        (\<exists>pre post. stack = pre @ u # post \<and>
           (u \<notin> set (DependsOn s) \<longrightarrow>
              u \<notin> set post \<and> (\<forall>d\<in>set (DependsOn s). is_done p d \<or> d \<in> set post))))"





text \<open>
  The life of a Provider that has never returned an error: \<open>evolves env p p'\<close> when
  \<open>p'\<close> results from \<open>p\<close> by successful calls of \<open>AddRule\<close> and \<open>Provide\<close>, and a
  Provider is \<open>reachable\<close> when it results so from the empty one. (The documentation:
  a Provider is no longer valid to use after it returns an error.)
\<close>

inductive evolves :: "env \<Rightarrow> Provider \<Rightarrow> Provider \<Rightarrow> bool" for env :: env and p :: Provider where
  same: "evolves env p p"
| addRule: "evolves env p p1 \<Longrightarrow> AddRule env p1 provideFn = (None, p2) \<Longrightarrow> evolves env p p2"
| provide:
    "evolves env p p1 \<Longrightarrow> Provide env n p1 vars args = Some (None, p2, vars') \<Longrightarrow>
     evolves env p p2"

definition reachable :: "env \<Rightarrow> Provider \<Rightarrow> bool" where
  "reachable env p = evolves env emptyProvider p"




text \<open>
  The whole life of a Provider, errors included: any Provider that results from the empty
  one by calls of \<open>AddRule\<close> and \<open>Provide\<close> that return, whatever they return.
\<close>

inductive lifetime :: "env \<Rightarrow> Provider \<Rightarrow> bool" for env :: env where
  fresh: "lifetime env emptyProvider"
| addRule: "lifetime env p \<Longrightarrow> AddRule env p provideFn = (r, p') \<Longrightarrow> lifetime env p'"
| provide:
    "lifetime env p \<Longrightarrow> Provide env n p vars args = Some (r, p', vars') \<Longrightarrow> lifetime env p'"

text \<open>
  No constructor has been invoked twice, and the latch of one that has been invoked is set.
\<close>

definition calledOnce :: "Provider \<Rightarrow> bool" where
  "calledOnce p =
     (\<forall>k. count_list (trace p) (Called k) \<le> 1 \<and>
          (Called k \<in> set (trace p) \<longrightarrow> k < length (closures p) \<and> alreadyDone (closures p ! k)))"

text \<open>
  The tasks whose \<open>Do\<close> the scheduler has run, in order; and the property that every
  Partial task among them has its Complete task Done.
\<close>

fun execTasks :: "event list \<Rightarrow> task list" where
  "execTasks [] = []"
| "execTasks (Exec t deps pending # es) = t # execTasks es"
| "execTasks (e # es) = execTasks es"

definition executed :: "Provider \<Rightarrow> task list" where
  "executed p = execTasks (trace p)"







text \<open>
  Who may write a ValueStore entry. \<open>writes act p U\<close>: running the action \<open>act\<close> in
  \<open>p\<close> may assign \<open>values[U]\<close>. Every action sits at the task of its own type
  (\<open>actionShape\<close>), and each type has a single writer that writes it once
  (\<open>singleWriter\<close>): a type with a value has a task; the non-error outputs of the
  rules have tasks, are distinct within a rule and disjoint between rules; a type with an
  auto-provided Partial action is the output of no rule; and once a type has a value, the
  latch of the rule that outputs it is set and no Partial action of \<open>autoProvide\<close> is left
  for it.
\<close>

fun writes :: "action \<Rightarrow> Provider \<Rightarrow> ty \<Rightarrow> bool" where
  "writes (RuleDo k) p U =
     (k < length (closures p) \<and> \<not> alreadyDone (closures p ! k)
      \<and> (U, False) \<in> set (outs (closures p ! k)))"
| "writes (PtrPartialDo T) p U = (U = T)"
| "writes (ValPartialDo T) p U = (U = T)"
| "writes (PtrCompleteDo T flds ii) p U = False"

fun actionAt :: "Provider \<Rightarrow> ty \<Rightarrow> bool \<Rightarrow> action \<Rightarrow> bool" where
  "actionAt p T b (RuleDo k) =
     (\<not> b \<and> k < length (closures p) \<and> (T, False) \<in> set (outs (closures p ! k)))"
| "actionAt p T b (PtrPartialDo U) = (\<not> b \<and> U = T)"
| "actionAt p T b (ValPartialDo U) = (\<not> b \<and> U = T)"
| "actionAt p T b (PtrCompleteDo U flds ii) = (b \<and> U = T)"

definition actionShape :: "Provider \<Rightarrow> bool" where
  "actionShape p =
     (\<forall>T b s act. tasks p (Task T b) = Some s \<and> Do s = Some act \<longrightarrow> actionAt p T b act)"

definition autoPartial :: "state \<Rightarrow> ty \<Rightarrow> bool" where
  "autoPartial s T = (Do s = Some (PtrPartialDo T) \<or> Do s = Some (ValPartialDo T))"

definition valueHasTask :: "Provider \<Rightarrow> bool" where
  "valueHasTask p = (\<forall>T. values' p T \<noteq> None \<longrightarrow> tasks p (Task T False) \<noteq> None)"

definition outputHasTask :: "Provider \<Rightarrow> bool" where
  "outputHasTask p =
     (\<forall>k T. k < length (closures p) \<and> (T, False) \<in> set (outs (closures p ! k))
             \<longrightarrow> tasks p (Task T False) \<noteq> None)"

definition outputsDisjoint :: "Provider \<Rightarrow> bool" where
  "outputsDisjoint p =
     (\<forall>k k' T. k < length (closures p) \<and> k' < length (closures p)
             \<and> (T, False) \<in> set (outs (closures p ! k))
             \<and> (T, False) \<in> set (outs (closures p ! k')) \<longrightarrow> k = k')"

definition outputsDistinct :: "Provider \<Rightarrow> bool" where
  "outputsDistinct p =
     (\<forall>k. k < length (closures p)
             \<longrightarrow> distinct (map fst (filter (\<lambda>out. \<not> snd out) (outs (closures p ! k)))))"

definition autoNotOutput :: "Provider \<Rightarrow> bool" where
  "autoNotOutput p =
     (\<forall>T s k. tasks p (Task T False) = Some s \<and> autoPartial s T \<and> k < length (closures p)
             \<longrightarrow> (T, False) \<notin> set (outs (closures p ! k)))"

definition storedLatched :: "Provider \<Rightarrow> bool" where
  "storedLatched p =
     (\<forall>T k. values' p T \<noteq> None \<and> k < length (closures p)
             \<and> (T, False) \<in> set (outs (closures p ! k)) \<longrightarrow> alreadyDone (closures p ! k))"

definition storedNoAuto :: "Provider \<Rightarrow> bool" where
  "storedNoAuto p =
     (\<forall>T s. values' p T \<noteq> None \<and> tasks p (Task T False) = Some s \<longrightarrow> \<not> autoPartial s T)"

definition singleWriter :: "Provider \<Rightarrow> bool" where
  "singleWriter p =
     (valueHasTask p \<and> outputHasTask p \<and> outputsDisjoint p \<and> outputsDistinct p
      \<and> autoNotOutput p \<and> storedLatched p \<and> storedNoAuto p)"


text \<open>
  No ValueStore entry has been assigned twice and no \<open>PleaseProvide\<close> method invoked
  twice; an entry that has been assigned is there, and a method that has been invoked
  belongs to a Complete task that is Done.
\<close>

definition storedOnce :: "Provider \<Rightarrow> bool" where
  "storedOnce p =
     (\<forall>T. count_list (trace p) (Stored T) \<le> 1
          \<and> (Stored T \<in> set (trace p) \<longrightarrow> values' p T \<noteq> None))"

definition initOnce :: "Provider \<Rightarrow> bool" where
  "initOnce p =
     (\<forall>T. count_list (trace p) (InitCalled T) \<le> 1
          \<and> (InitCalled T \<in> set (trace p) \<longrightarrow> is_done p (Task T True)))"
section \<open>Running the model\<close>

text \<open>The defining equations by which \<open>simp\<close> runs the model on the concrete program.\<close>

lemmas model_defs =
  complete_def do'_def doIter_def finishTask_def lookupState_def autoProvide_def autoProvidePtr_def
  providedFieldsOf_def newState_def markDone_def noteExec_def is_done_def cycleFrom_def
  ptrPartialDo_def ptrCompleteDo_def callInit_def valPartialDo_def ruleDo_def
  isErrorType_def isReferenceType_def zeroField_def emptyProvider_def
  AddRule_def NewProvider_def customProvide_def providerOf_def observe_def after_def
  exEnv_def bothInit_def cellInit_def
  ruleX_def ruleXY_def failingRule_def ruleA_def ruleB_def bump_def
  tErr_def tX_def tY_def tA_def tB_def pFoo_def pBar_def pSelf_def pBoth_def tCell_def
  Let_def eval_nat_numeral

lemma after_Provide:
  assumes "(case Provide exEnv 50 p Map.empty args of Some (None, p', vars) \<Rightarrow> True | _ \<Rightarrow> False)"
  shows "\<exists>vars'. Provide exEnv 50 p Map.empty args = Some (None, after p args, vars')"
  using assms by (auto simp: after_def split: option.splits prod.splits)


lemma addRules_lifetime:
  "addRules env p fs = Inr p' \<Longrightarrow> lifetime env p \<Longrightarrow> lifetime env p'"
proof (induction fs arbitrary: p)
  case Nil
  then show ?case by simp
next
  case (Cons f fs)
  obtain r p1 where a: "AddRule env p f = (r, p1)" by (cases "AddRule env p f")
  with Cons.prems(1) have "addRules env p1 fs = Inr p'" by (cases r) simp_all
  from Cons.IH[OF this lifetime.addRule[OF Cons.prems(2) a]] show ?case .
qed

lemma addRules_evolves:
  "addRules env p fs = Inr p' \<Longrightarrow> evolves env p0 p \<Longrightarrow> evolves env p0 p'"
proof (induction fs arbitrary: p)
  case Nil
  then show ?case by simp
next
  case (Cons f fs)
  obtain r p1 where a: "AddRule env p f = (r, p1)" by (cases "AddRule env p f")
  with Cons.prems(1) have r: "r = None" and rest: "addRules env p1 fs = Inr p'"
    by (cases r; simp)+
  from Cons.IH[OF rest evolves.addRule[OF Cons.prems(2) a[unfolded r]]] show ?case .
qed

lemma providerOf_lifetime:
  assumes "(case NewProvider exEnv fs of Inr p \<Rightarrow> True | Inl e \<Rightarrow> False)"
  shows "lifetime exEnv (providerOf fs)"
proof -
  from assms obtain p where p: "NewProvider exEnv fs = Inr p" by (auto split: sum.splits)
  then have "providerOf fs = p" by (simp add: providerOf_def)
  with addRules_lifetime[OF p[unfolded NewProvider_def] lifetime.fresh] show ?thesis by simp
qed

lemma providerOf_reachable:
  assumes "(case NewProvider exEnv fs of Inr p \<Rightarrow> True | Inl e \<Rightarrow> False)"
  shows "reachable exEnv (providerOf fs)"
proof -
  from assms obtain p where p: "NewProvider exEnv fs = Inr p" by (auto split: sum.splits)
  then have "providerOf fs = p" by (simp add: providerOf_def)
  with addRules_evolves[OF p[unfolded NewProvider_def] evolves.same] show ?thesis
    by (simp add: reachable_def)
qed

lemma after_lifetime:
  assumes "lifetime exEnv p"
    and "(case Provide exEnv 50 p Map.empty args of Some (None, p', vars) \<Rightarrow> True | _ \<Rightarrow> False)"
  shows "lifetime exEnv (after p args)"
  using after_Provide[OF assms(2)] lifetime.provide[OF assms(1)] by blast

lemma after_reachable:
  assumes "reachable exEnv p"
    and "(case Provide exEnv 50 p Map.empty args of Some (None, p', vars) \<Rightarrow> True | _ \<Rightarrow> False)"
  shows "reachable exEnv (after p args)"
  using after_Provide[OF assms(2)] evolves.provide[OF assms(1)[unfolded reachable_def]]
  unfolding reachable_def by blast


section \<open>The scheduler as a transition system\<close>















subsection \<open>The stack discipline\<close>


lemma stackInv_push:
  assumes "stackInv p stack"
    and "\<forall>d\<in>set pushed. \<exists>st. tasks p d = Some st \<and> \<not> Done st \<and> \<not> InProgress st"
  shows "stackInv p (stack @ pushed)"
  unfolding stackInv_def
proof (intro allI impI)
  fix u s assume a: "tasks p u = Some s \<and> InProgress s \<and> \<not> Done s"
  with assms(1) obtain pre post where
    st: "stack = pre @ u # post"
    "u \<notin> set (DependsOn s) \<longrightarrow> u \<notin> set post \<and> (\<forall>d\<in>set (DependsOn s). is_done p d \<or> d \<in> set post)"
    unfolding stackInv_def by blast
  have "u \<notin> set pushed" using assms(2) a by auto
  with st have "stack @ pushed = pre @ u # (post @ pushed) \<and>
           (u \<notin> set (DependsOn s) \<longrightarrow>
              u \<notin> set (post @ pushed) \<and> (\<forall>d\<in>set (DependsOn s). is_done p d \<or> d \<in> set (post @ pushed)))"
    by auto
  then show "\<exists>pre post. stack @ pushed = pre @ u # post \<and>
           (u \<notin> set (DependsOn s) \<longrightarrow>
              u \<notin> set post \<and> (\<forall>d\<in>set (DependsOn s). is_done p d \<or> d \<in> set post))"
    by blast
qed






lemma noteExec_tasks [simp]: "tasks (noteExec p t s) = tasks p"
  by (simp add: noteExec_def)






















subsection \<open>Invariants of a Provider's life\<close>



lemma install_tasks:
  assumes "install p inits = (r, p')"
  shows "closures p' = closures p \<and> values' p' = values' p \<and> heap p' = heap p \<and> trace p' = trace p"
  using assms by (induction p inits rule: install.induct) (auto split: if_splits)









subsection \<open>What the actions add to the history\<close>








section \<open>The actions of rules and of auto-provided types\<close>

subsection \<open>Tag validation\<close>

lemma scanFields_bad:
  assumes "(ft, Some tag) \<in> set flds0"
    and "(tag \<noteq> [] \<and> tag \<noteq> ''circular'') \<or> (tag = ''circular'' \<and> \<not> isReferenceType ft)"
  shows "\<exists>e. scanFields elem i flds0 = Inl e \<and> tagError e"
  using assms
proof (induction flds0 arbitrary: i)
  case Nil
  then show ?case by simp
next
  case (Cons f rest)
  show ?case
  proof (cases "f = (ft, Some tag)")
    case True
    then show ?thesis using Cons.prems(2) by (auto simp: Let_def)
  next
    case False
    with Cons.prems have "(ft, Some tag) \<in> set rest" by auto
    from Cons.IH[OF this Cons.prems(2)] obtain e where
      "scanFields elem (Suc i) rest = Inl e" "tagError e" by blast
    then show ?thesis
      by (auto simp: Let_def split: option.splits)
  qed
qed

text \<open>
  C8. Deriving an Initializer for a pointer-to-struct type fails with a tag error when some
  field of the struct carries a \<open>provide\<close> tag that is neither empty nor \<open>circular\<close>, or
  carries the tag \<open>circular\<close> on a type whose kind is not pointer, interface, map or
  channel: \<open>autoProvide\<close> returns the error and no Initializer.
\<close>

theorem autoProvide_tag_validation:
  assumes "(ft, Some tag) \<in> set (structFields env n)"
    and "(tag \<noteq> [] \<and> tag \<noteq> ''circular'')
         \<or> (tag = ''circular'' \<and> Kind ft \<notin> {Ptr, Interface, Map, Chan})"
  shows "\<exists>e. autoProvide env (PtrTo (StructT n)) = Inl e \<and> tagError e"
proof -
  have "(tag \<noteq> [] \<and> tag \<noteq> ''circular'') \<or> (tag = ''circular'' \<and> \<not> isReferenceType ft)"
    using assms(2) by (auto simp: isReferenceType_def Let_def)
  from scanFields_bad[OF assms(1) this] obtain e where
    "scanFields (StructT n) 0 (structFields env n) = Inl e" "tagError e" by blast
  then show ?thesis
    by (auto simp: autoProvide_def autoProvidePtr_def providedFieldsOf_def)
qed

theorem autoProvide_tag_validation_witness:
  "(\<exists>e. autoProvide exEnv (PtrTo (StructT ''Bad'')) = Inl e \<and> tagError e)
   \<and> (\<exists>e. autoProvide exEnv (PtrTo (StructT ''Loop'')) = Inl e \<and> tagError e)"
  using autoProvide_tag_validation[of "Basic ''int''" "''lazy''" exEnv "''Bad''"]
    autoProvide_tag_validation[of "Basic ''string''" "''circular''" exEnv "''Loop''"]
  by (simp add: exEnv_def)

subsection \<open>The shared action of a rule\<close>










subsection \<open>The Complete action of an auto-provided pointer\<close>

lemma scanFields_Index:
  "scanFields elem i flds0 = Inr flds \<Longrightarrow>
   (\<forall>f\<in>set flds. i \<le> Index f \<and> Index f < i + length flds0) \<and> distinct (map Index flds)"
proof (induction flds0 arbitrary: i flds)
  case Nil
  then show ?case by simp
next
  case (Cons field rest)
  show ?case
  proof (cases "snd field")
    case None
    with Cons.prems have "scanFields elem (Suc i) rest = Inr flds" by simp
    from Cons.IH[OF this] show ?thesis by auto
  next
    case (Some tag)
    with Cons.prems obtain fs where
      fs: "scanFields elem (Suc i) rest = Inr fs" and
      flds: "flds = Field (fst field) i (tag \<noteq> ''circular'') # fs"
      by (auto simp: Let_def split: if_splits sum.splits)
    from Cons.IH[OF fs] show ?thesis unfolding flds by fastforce
  qed
qed

lemma setFields_ok:
  "\<forall>f\<in>set flds. vs (fieldType f) \<noteq> None \<and> Index f < length fs \<Longrightarrow> distinct (map Index flds) \<Longrightarrow>
   \<exists>fs'. setFields vs h flds fs = (None, fs') \<and> length fs' = length fs
     \<and> (\<forall>f\<in>set flds. fs' ! Index f = load h (the (vs (fieldType f))))
     \<and> (\<forall>i. i \<notin> Index ` set flds \<longrightarrow> fs' ! i = fs ! i)"
proof (induction flds arbitrary: fs)
  case Nil
  then show ?case by simp
next
  case (Cons f rest)
  from Cons.prems obtain x where x: "vs (fieldType f) = Some x" and i: "Index f < length fs"
    by auto
  let ?fs1 = "fs[Index f := load h x]"
  have "\<forall>g\<in>set rest. vs (fieldType g) \<noteq> None \<and> Index g < length ?fs1"
    using Cons.prems by simp
  moreover have "distinct (map Index rest)" using Cons.prems by simp
  ultimately obtain fs' where
    r: "setFields vs h rest ?fs1 = (None, fs')" "length fs' = length ?fs1"
       "\<forall>g\<in>set rest. fs' ! Index g = load h (the (vs (fieldType g)))"
       "\<forall>i. i \<notin> Index ` set rest \<longrightarrow> fs' ! i = ?fs1 ! i"
    using Cons.IH[of ?fs1] by blast
  have "Index f \<notin> Index ` set rest" using Cons.prems(2) by auto
  with r(4) i have "fs' ! Index f = load h x" by simp
  moreover have "\<forall>i. i \<notin> Index ` set (f # rest) \<longrightarrow> fs' ! i = fs ! i"
    using r(4) by auto
  ultimately show ?case using x i r by auto
qed

lemma firstNonNil_find:
  "firstNonNil os = map_option Returned (find (\<lambda>out. out \<noteq> VNil) os)"
  by (induction os) auto

lemma autoProvide_ptr_struct:
  assumes "autoProvide env (PtrTo (StructT n)) = Inr init"
  shows "\<exists>flds initIns. scanFields (StructT n) 0 (structFields env n) = Inr flds
     \<and> Do (init_Complete init) = Some (PtrCompleteDo (PtrTo (StructT n)) flds initIns)
     \<and> (initIns = map_option m_ins (pleaseProvide env (PtrTo (StructT n))))"
  using assms
  by (auto simp: autoProvide_def autoProvidePtr_def providedFieldsOf_def newState_def Let_def
      split: sum.splits option.splits if_splits)

text \<open>
  C9. Let \<open>autoProvide\<close> derive the Initializer of a pointer-to-struct type that has
  annotated fields (\<open>flds\<close> is not empty) and a \<open>PleaseProvide\<close> method \<open>initFn\<close>, and
  let its Complete action run in a state where the pointer is allocated and the field and
  input types have their values. Then the action invokes the method exactly when the heap
  is \<open>h1\<close>, in which every annotated field of the instance already holds the ValueStore's
  value for its type (and the other fields are untouched); the method receives the
  instance and the values of its declared inputs; and the action returns the first non-nil
  value among the method's results as its error.
\<close>

theorem fields_then_initializer:
  assumes derive: "autoProvide env (PtrTo (StructT n)) = Inr init"
    and act: "Do (init_Complete init) = Some (PtrCompleteDo typ flds (Some iins))"
    and nonempty: "flds \<noteq> []"
    and m: "pleaseProvide env (PtrTo (StructT n)) = Some initFn"
    and v: "values' p (PtrTo (StructT n)) = Some (VPtr a)" "a < length (heap p)"
           "heap p ! a = VStruct fs" "length fs = length (structFields env n)"
    and present: "\<forall>f\<in>set flds. values' p (fieldType f) \<noteq> None"
                 "\<forall>t\<in>set iins. values' p t \<noteq> None"
  shows "\<exists>fs'. length fs' = length fs
          \<and> (\<forall>f\<in>set flds. fs' ! Index f = load (heap p) (the (values' p (fieldType f))))
          \<and> (\<forall>i. i \<notin> Index ` set flds \<longrightarrow> fs' ! i = fs ! i)
          \<and> (let h1 = (heap p)[a := VStruct fs'];
                 r = m_body initFn h1 (VPtr a # map (\<lambda>t. load h1 (the (values' p t))) iins)
             in iins = m_ins initFn
                \<and> runDo env (PtrCompleteDo typ flds (Some iins)) p
                   = (map_option Returned (find (\<lambda>out. out \<noteq> VNil) (snd r)),
                      p\<lparr>heap := fst r, trace := trace p @ [InitCalled (PtrTo (StructT n))]\<rparr>))"
proof -
  from autoProvide_ptr_struct[OF derive] act m have
    scan: "scanFields (StructT n) 0 (structFields env n) = Inr flds" and
    typ_eq: "typ = PtrTo (StructT n)" and iins: "iins = m_ins initFn"
    by auto
  from scanFields_Index[OF scan] v(4) have
    idx: "\<forall>f\<in>set flds. Index f < length fs" and dist: "distinct (map Index flds)"
    by auto
  from setFields_ok[of flds "values' p" fs "heap p"] idx dist present(1) obtain fs' where
    set: "setFields (values' p) (heap p) flds fs = (None, fs')" and
    len: "length fs' = length fs" and
    got: "\<forall>f\<in>set flds. fs' ! Index f = load (heap p) (the (values' p (fieldType f)))" and
    rest: "\<forall>i. i \<notin> Index ` set flds \<longrightarrow> fs' ! i = fs ! i"
    by blast
  have "None \<notin> set (map (values' p) iins)" using present(2) by auto
  then have run: "runDo env (PtrCompleteDo typ flds (Some iins)) p
     = (let h1 = (heap p)[a := VStruct fs'];
            r = m_body initFn h1 (VPtr a # map (\<lambda>t. load h1 (the (values' p t))) iins)
        in (map_option Returned (find (\<lambda>out. out \<noteq> VNil) (snd r)),
            p\<lparr>heap := fst r, trace := trace p @ [InitCalled (PtrTo (StructT n))]\<rparr>))"
    using nonempty v set m typ_eq
    by (simp add: ptrCompleteDo_def callInit_def Let_def firstNonNil_find comp_def)
  show ?thesis
    using len got rest run iins by (auto simp: Let_def)
qed

lemma bothAuto: "autoProvide exEnv pBoth =
   Inr \<lparr>init_Type = pBoth,
        init_Partial = newState [] (Some (PtrPartialDo pBoth)),
        init_Complete = newState [Task pBoth False, Task tX True, Task tY True]
            (Some (PtrCompleteDo pBoth [Field tX 0 True] (Some [tY])))\<rparr>"
  by (simp add: autoProvide_def autoProvidePtr_def providedFieldsOf_def exEnv_def bothInit_def
      isErrorType_def pBoth_def tX_def tY_def)

theorem fields_then_initializer_witness:
  "fst (runDo exEnv (PtrCompleteDo pBoth [Field tX 0 True] (Some [tY])) bothReady) = None
   \<and> heap (snd (runDo exEnv (PtrCompleteDo pBoth [Field tX 0 True] (Some [tY])) bothReady))
       = [VStruct [VStr ''x'']]"
proof -
  let ?init = "\<lparr>init_Type = pBoth,
        init_Partial = newState [] (Some (PtrPartialDo pBoth)),
        init_Complete = newState [Task pBoth False, Task tX True, Task tY True]
            (Some (PtrCompleteDo pBoth [Field tX 0 True] (Some [tY])))\<rparr>"
  have h1: "autoProvide exEnv (PtrTo (StructT ''Both'')) = Inr ?init"
    using bothAuto by (simp add: pBoth_def)
  have h2: "Do (init_Complete ?init) = Some (PtrCompleteDo pBoth [Field tX 0 True] (Some [tY]))"
    by (simp add: newState_def)
  have h3: "[Field tX 0 True] \<noteq> []" by simp
  have h4: "pleaseProvide exEnv (PtrTo (StructT ''Both'')) = Some bothInit"
    by (simp add: exEnv_def)
  have h5: "values' bothReady (PtrTo (StructT ''Both'')) = Some (VPtr 0)"
    "0 < length (heap bothReady)" "heap bothReady ! 0 = VStruct [VZero]"
    "length [VZero] = length (structFields exEnv ''Both'')"
    by (simp_all add: bothReady_def exEnv_def)
  have h6: "\<forall>f\<in>set [Field tX 0 True]. values' bothReady (fieldType f) \<noteq> None"
    "\<forall>t\<in>set [tY]. values' bothReady t \<noteq> None"
    by (simp_all add: bothReady_def tX_def tY_def)
  from fields_then_initializer[OF h1 h2 h3 h4 h5 h6]
  obtain fs' where l: "length fs' = length [VZero]"
    and f: "\<forall>f\<in>set [Field tX 0 True]. fs' ! Index f = load (heap bothReady) (the (values' bothReady (fieldType f)))"
    and run: "runDo exEnv (PtrCompleteDo pBoth [Field tX 0 True] (Some [tY])) bothReady
      = (map_option Returned (find (\<lambda>out. out \<noteq> VNil)
            (snd (m_body bothInit ((heap bothReady)[0 := VStruct fs'])
               (VPtr 0 # map (\<lambda>t. load ((heap bothReady)[0 := VStruct fs']) (the (values' bothReady t))) [tY])))),
         bothReady\<lparr>heap := fst (m_body bothInit ((heap bothReady)[0 := VStruct fs'])
               (VPtr 0 # map (\<lambda>t. load ((heap bothReady)[0 := VStruct fs']) (the (values' bothReady t))) [tY])),
            trace := trace bothReady @ [InitCalled (PtrTo (StructT ''Both''))]\<rparr>)"
    unfolding Let_def by blast
  from f have "fs' ! 0 = VStr ''x''" by (simp add: bothReady_def tX_def)
  with l have "fs' = [VStr ''x'']" by (cases fs') auto
  with run show ?thesis
    by (simp add: bothReady_def bothInit_def)
qed

section \<open>Provide\<close>

text \<open>
  C6, as the code has it. \<open>Provide\<close> checks each argument when its turn comes, after the
  arguments before it have been resolved. So when \<open>bad\<close> is an argument that is not a
  non-nil pointer, or points to a variable of an error type, the call does for the
  arguments \<open>pre\<close> listed before it exactly what a call with \<open>pre\<close> alone does, and, if
  that succeeds, returns the rejection of \<open>bad\<close> in the state that call leaves: nothing
  is resolved for \<open>bad\<close> or for any argument \<open>post\<close> listed after it.
\<close>

theorem Provide_rejects_at_malformed:
  assumes "malformed env bad"
  shows "Provide env n p vars (pre @ bad # post) =
     (case Provide env n p vars pre of
        None \<Rightarrow> None
      | Some (Some e, p', vars') \<Rightarrow> Some (Some e, p', vars')
      | Some (None, p', vars') \<Rightarrow> Some (Some (argError bad), p', vars'))"
proof (induction pre arbitrary: p vars)
  case Nil
  show ?case using assms by (cases bad) simp_all
next
  case (Cons a pre)
  show ?case
  proof (cases a)
    case (PointerTo x t)
    show ?thesis
    proof (cases "isErrorType env t")
      case True
      then show ?thesis using PointerTo by simp
    next
      case False
      show ?thesis
      proof (cases "complete env n p t")
        case None
        then show ?thesis using PointerTo False by simp
      next
        case (Some r)
        obtain e p' where r: "r = (e, p')" by (cases r)
        show ?thesis
        proof (cases e)
          case (Some err)
          then show ?thesis using PointerTo False \<open>complete env n p t = Some r\<close> r by simp
        next
          case None
          show ?thesis
          proof (cases "values' p' t")
            case (Some v)
            then show ?thesis
              using PointerTo False \<open>complete env n p t = Some r\<close> r \<open>e = None\<close>
              by (simp add: Cons.IH del: fun_upd_apply)
          next
            case None
            then show ?thesis
              using PointerTo False \<open>complete env n p t = Some r\<close> r \<open>e = None\<close> by simp
          qed
        qed
      qed
    qed
  qed simp_all
qed

lemma Provide_ruleX:
  "observe (Provide exEnv 10 (providerOf [ruleX]) Map.empty [PointerTo 0 tX])
     = Some (None, [Exec (Task tX False) [] [], Called 0, Stored tX], [Some (VStr ''x''), None, None])"
  by code_simp

theorem Provide_rejects_at_malformed_witness:
  "observe (Provide exEnv 10 (providerOf [ruleX]) Map.empty [PointerTo 0 tX, NilPointer, PointerTo 1 tY])
     = Some (Some BadArgument, [Exec (Task tX False) [] [], Called 0, Stored tX],
             [Some (VStr ''x''), None, None])"
proof -
  have "malformed exEnv NilPointer" by simp
  from Provide_rejects_at_malformed[OF this, of 10 "providerOf [ruleX]" Map.empty
      "[PointerTo 0 tX]" "[PointerTo 1 tY]"]
  show ?thesis using Provide_ruleX
    by (auto simp: observe_def split: option.splits)
qed

text \<open>
  The claim as stated fails: in \<open>Provide(&x, nil)\<close> the nil argument is rejected only
  after \<open>x\<close> has been resolved: the constructor of \<open>X\<close> has run (\<open>Called 0\<close>) and the
  caller's variable 0 is set.
\<close>

theorem Provide_validates_up_front_counterexample:
  "observe (Provide exEnv 10 (providerOf [ruleX]) Map.empty [PointerTo 0 tX, NilPointer])
     = Some (Some BadArgument, [Exec (Task tX False) [] [], Called 0, Stored tX],
             [Some (VStr ''x''), None, None])"
  by code_simp

subsection \<open>The cycle report\<close>

text \<open>
  C1 at a concrete input. The rules \<open>func(B) A\<close> and \<open>func(A) B\<close> make \<open>A\<close> and \<open>B\<close> each
  other's Complete-level dependency. Requesting \<open>A\<close> walks the stack
  \<open>[(A, Complete), (A, Partial), (B, Complete), (B, Partial)]\<close> and finds the dependency
  \<open>(A, Complete)\<close> of \<open>(B, Partial)\<close> in progress. The code searches the stack for the task
  it is processing, \<open>(B, Partial)\<close>, not for the dependency, so the reported cycle is the
  single type \<open>B\<close>; requesting \<open>B\<close> reports the single type \<open>A\<close>. No constructor runs.
\<close>

theorem cycle_report_at_mutual_rules:
  "observe (Provide exEnv 20 (providerOf [ruleA, ruleB]) Map.empty [PointerTo 0 tA])
     = Some (Some (Cycle [tB]), [], [None, None, None])
   \<and> observe (Provide exEnv 20 (providerOf [ruleA, ruleB]) Map.empty [PointerTo 0 tB])
     = Some (Some (Cycle [tA]), [], [None, None, None])"
  by code_simp

section \<open>Actions run after their dependencies\<close>





section \<open>A constructor runs at most once\<close>

subsection \<open>Properties that do not depend on the task store\<close>

lemma lookupState_blind:
  "lookupState env p t = Inr (s, p1) \<Longrightarrow> \<exists>m. p1 = p\<lparr>tasks := m\<rparr>"
  by (auto simp: lookupState_def Let_def split: option.splits sum.splits intro: exI[of _ "tasks p"])

lemma scheduleDeps_blind:
  "scheduleDeps env p stack t deps hasDeps = Inr (p2, r) \<Longrightarrow> \<exists>m. p2 = p\<lparr>tasks := m\<rparr>"
proof (induction deps arbitrary: p stack hasDeps)
  case Nil
  then show ?case by (auto intro: exI[of _ "tasks p"])
next
  case (Cons dep deps)
  from Cons.prems obtain ds p1 where l: "lookupState env p dep = Inr (ds, p1)"
    by (auto split: sum.splits)
  from lookupState_blind[OF l] obtain m1 where p1: "p1 = p\<lparr>tasks := m1\<rparr>" by blast
  from Cons.prems l obtain st hd where "scheduleDeps env p1 st t deps hd = Inr (p2, r)"
    by (auto split: if_splits)
  from Cons.IH[OF this] obtain m where "p2 = p1\<lparr>tasks := m\<rparr>" by blast
  with p1 show ?case by auto
qed

lemma scheduleDeps_blind_fail:
  "scheduleDeps env p stack t deps hasDeps = Inl (e, p2) \<Longrightarrow> \<exists>m. p2 = p\<lparr>tasks := m\<rparr>"
proof (induction deps arbitrary: p stack hasDeps)
  case Nil
  then show ?case by simp
next
  case (Cons dep deps)
  show ?case
  proof (cases "lookupState env p dep")
    case (Inl err)
    with Cons.prems show ?thesis by (auto intro: exI[of _ "tasks p"])
  next
    case (Inr r)
    obtain ds p1 where l: "lookupState env p dep = Inr (ds, p1)" using Inr by (cases r) auto
    from lookupState_blind[OF l] obtain m1 where p1: "p1 = p\<lparr>tasks := m1\<rparr>" by blast
    from Cons.prems l have
      "p2 = p1 \<or> (\<exists>st hd. scheduleDeps env p1 st t deps hd = Inl (e, p2))"
      by (auto split: if_splits)
    then show ?thesis
    proof
      assume "p2 = p1"
      with p1 show ?thesis by blast
    next
      assume "\<exists>st hd. scheduleDeps env p1 st t deps hd = Inl (e, p2)"
      then obtain st hd where "scheduleDeps env p1 st t deps hd = Inl (e, p2)" by blast
      from Cons.IH[OF this] obtain m where "p2 = p1\<lparr>tasks := m\<rparr>" by blast
      with p1 show ?thesis by auto
    qed
  qed
qed

lemma finishTask_blind:
  assumes P: "P p"
    and blind: "\<And>p m. P p \<Longrightarrow> P (p\<lparr>tasks := m\<rparr>)"
    and run: "\<And>p t s act r p'. P p \<Longrightarrow> runDo env act (noteExec p t s) = (r, p') \<Longrightarrow> P p'"
  shows "case finishTask env p stack t s nd of Inl (e, p') \<Rightarrow> P p' | Inr (p', r) \<Rightarrow> P p'"
proof (cases "\<not> Done s \<and> InProgress s")
  case False
  then show ?thesis using P by (auto simp: finishTask_def)
next
  case True
  show ?thesis
  proof (cases "Do s")
    case None
    have "P (markDone p t s)" unfolding markDone_def by (rule blind[OF P])
    with True None show ?thesis by (simp add: finishTask_def)
  next
    case (Some act)
    obtain r p1 where r: "runDo env act (noteExec p t s) = (r, p1)" by (cases "runDo env act (noteExec p t s)")
    from run[OF P r] have p1: "P p1" .
    have "P (markDone p1 t s)" unfolding markDone_def by (rule blind[OF p1])
    with True Some r p1 show ?thesis by (cases r) (simp_all add: finishTask_def)
  qed
qed

lemma doIter_blind:
  assumes P: "P p"
    and blind: "\<And>p m. P p \<Longrightarrow> P (p\<lparr>tasks := m\<rparr>)"
    and run: "\<And>p t s act r p'. P p \<Longrightarrow> runDo env act (noteExec p t s) = (r, p') \<Longrightarrow> P p'"
  shows "case doIter env p stack nd of Inl (e, p') \<Rightarrow> P p' | Inr (p', r) \<Rightarrow> P p'"
proof (cases "lookupState env p (last stack)")
  case (Inl err)
  then show ?thesis using P by (simp add: doIter_def Let_def)
next
  case (Inr r)
  obtain s p1 where l: "lookupState env p (last stack) = Inr (s, p1)" using Inr by (cases r) auto
  from lookupState_blind[OF l] blind[OF P] have p1: "P p1" by auto
  show ?thesis
  proof (cases "\<not> Done s \<and> \<not> InProgress s")
    case False
    with l have "doIter env p stack nd = finishTask env p1 stack (last stack) s nd"
      by (auto simp: doIter_def Let_def)
    with finishTask_blind[where P=P and p=p1 and env=env and stack=stack and t="last stack"
        and s=s and nd=nd, OF p1 blind run] show ?thesis
      by simp
  next
    case True
    show ?thesis
    proof (cases "scheduleDeps env p1 stack (last stack) (DependsOn s) False")
      case (Inl ep)
      obtain e p2 where ep: "ep = (e, p2)" by (cases ep)
      from scheduleDeps_blind_fail[OF Inl[unfolded ep]] blind[OF p1] have "P p2" by auto
      with l True Inl ep show ?thesis by (simp add: doIter_def Let_def)
    next
      case (Inr r2)
      obtain p2 stack2 hasDeps where r2: "r2 = (p2, stack2, hasDeps)" by (cases r2)
      from scheduleDeps_blind[OF Inr[unfolded r2]] blind[OF p1] have p2: "P p2" by auto
      let ?s' = "s\<lparr>InProgress := True\<rparr>"
      let ?p3 = "p2\<lparr>tasks := (tasks p2)(last stack \<mapsto> ?s')\<rparr>"
      have p3: "P ?p3" by (rule blind[OF p2])
      show ?thesis
      proof (cases hasDeps)
        case True
        with l \<open>\<not> Done s \<and> \<not> InProgress s\<close> Inr r2 p3 show ?thesis
          by (simp add: doIter_def Let_def)
      next
        case False
        with l \<open>\<not> Done s \<and> \<not> InProgress s\<close> Inr r2 have
          "doIter env p stack nd = finishTask env ?p3 stack2 (last stack) ?s' nd"
          by (simp add: doIter_def Let_def)
        with finishTask_blind[where P=P and p="?p3" and env=env and stack=stack2
          and t="last stack" and s="?s'" and nd=nd, OF p3 blind run]
        show ?thesis by simp
      qed
    qed
  qed
qed

lemma doLoop_blind:
  assumes "doLoop env n p stack nd = Some res" and P: "P p"
    and blind: "\<And>p m. P p \<Longrightarrow> P (p\<lparr>tasks := m\<rparr>)"
    and run: "\<And>p t s act r p'. P p \<Longrightarrow> runDo env act (noteExec p t s) = (r, p') \<Longrightarrow> P p'"
  shows "case res of Inl (e, p') \<Rightarrow> P p' | Inr (nd', p') \<Rightarrow> P p'"
  using assms(1,2)
proof (induction n arbitrary: p stack nd)
  case 0
  then show ?case by (cases stack) auto
next
  case (Suc n)
  show ?case
  proof (cases stack)
    case Nil
    with Suc.prems show ?thesis by auto
  next
    case (Cons t rest)
    from doIter_blind[where P=P and p=p and env=env and stack=stack and nd=nd, OF Suc.prems(2) blind run]
    have d: "case doIter env p stack nd of Inl (e, p') \<Rightarrow> P p' | Inr (p', r) \<Rightarrow> P p'" .
    show ?thesis
    proof (cases "doIter env p stack nd")
      case (Inl ep)
      with Suc.prems(1) Cons d show ?thesis by auto
    next
      case (Inr r)
      obtain p1 stack1 nd1 where r: "r = (p1, stack1, nd1)" by (cases r)
      from Inr r d have p1: "P p1" by simp
      from Suc.prems(1) Cons Inr r have "doLoop env n p1 stack1 nd1 = Some res" by simp
      from Suc.IH[OF this p1] show ?thesis .
    qed
  qed
qed

lemma completeLoop_blind:
  assumes "completeLoop env n k p goals i = Some (r, p')" and P: "P p"
    and blind: "\<And>p m. P p \<Longrightarrow> P (p\<lparr>tasks := m\<rparr>)"
    and run: "\<And>p t s act r p'. P p \<Longrightarrow> runDo env act (noteExec p t s) = (r, p') \<Longrightarrow> P p'"
  shows "P p'"
  using assms(1,2)
proof (induction k arbitrary: p goals i)
  case 0
  then show ?case by (simp split: if_splits)
next
  case (Suc k)
  show ?case
  proof (cases "i < length goals")
    case False
    with Suc.prems show ?thesis by simp
  next
    case True
    from Suc.prems(1) True obtain res where d: "do' env n p (goals ! i) = Some res"
      by (auto split: option.splits)
    from doLoop_blind[where P=P, OF d[unfolded do'_def] Suc.prems(2) blind run]
    have c: "case res of Inl (e, p') \<Rightarrow> P p' | Inr (nd', p') \<Rightarrow> P p'" .
    show ?thesis
    proof (cases res)
      case (Inl ep)
      with Suc.prems(1) True d c show ?thesis by (auto split: prod.splits)
    next
      case (Inr ndp)
      obtain nd p1 where ndp: "ndp = (nd, p1)" by (cases ndp)
      with Inr c have "P p1" by simp
      moreover from Suc.prems(1) True d Inr ndp have
        "completeLoop env n k p1
           (goals @ map (\<lambda>done. Task (Type done) True) (filter (\<lambda>done. \<not> Complete done) nd))
           (Suc i) = Some (r, p')" by simp
      ultimately show ?thesis using Suc.IH by blast
    qed
  qed
qed

lemma Provide_blind:
  assumes "Provide env n p vars args = Some (r, p', vars')" and P: "P p"
    and blind: "\<And>p m. P p \<Longrightarrow> P (p\<lparr>tasks := m\<rparr>)"
    and run: "\<And>p t s act r p'. P p \<Longrightarrow> runDo env act (noteExec p t s) = (r, p') \<Longrightarrow> P p'"
  shows "P p'"
  using assms(1,2)
proof (induction args arbitrary: p vars)
  case Nil
  then show ?case by simp
next
  case (Cons a args)
  show ?case
  proof (cases a)
    case (PointerTo x t)
    show ?thesis
    proof (cases "isErrorType env t")
      case True
      with Cons.prems PointerTo show ?thesis by simp
    next
      case False
      with Cons.prems(1) PointerTo obtain eo p1 where
        c: "complete env n p t = Some (eo, p1)"
        by (auto split: option.splits)
      from completeLoop_blind[where P=P, OF c[unfolded complete_def] Cons.prems(2) blind run]
      have p1: "P p1" .
      show ?thesis
      proof (cases eo)
        case (Some err)
        with Cons.prems(1) PointerTo False c p1 show ?thesis by simp
      next
        case None
        show ?thesis
        proof (cases "values' p1 t")
          case None
          with Cons.prems(1) PointerTo False c \<open>eo = None\<close> p1 show ?thesis by simp
        next
          case (Some v)
          with Cons.prems(1) PointerTo False c \<open>eo = None\<close> have
            "Provide env n p1 (vars(x \<mapsto> load (heap p1) v)) args = Some (r, p', vars')" by simp
          from Cons.IH[OF this p1] show ?thesis .
        qed
      qed
    qed
  qed (use Cons.prems in simp_all)
qed


subsection \<open>The latch\<close>

lemma storeOutputs_closures: "closures (snd (storeOutputs xs p)) = closures p"
  by (induction xs p rule: storeOutputs.induct) auto

lemma storeOutputs_Called:
  "count_list (trace (snd (storeOutputs xs p))) (Called k) = count_list (trace p) (Called k)"
  by (induction xs p rule: storeOutputs.induct) auto

lemma count_list_0_iff: "count_list xs x = 0 \<longleftrightarrow> x \<notin> set xs"
  by (induction xs) auto

lemma calledOnce_blind: "calledOnce p \<Longrightarrow> calledOnce (p\<lparr>tasks := m\<rparr>)"
  by (simp add: calledOnce_def)

lemma calledOnce_alt:
  "calledOnce p \<longleftrightarrow>
     (\<forall>k. count_list (trace p) (Called k) \<le> 1 \<and>
          (0 < count_list (trace p) (Called k) \<longrightarrow> k < length (closures p) \<and> alreadyDone (closures p ! k)))"
  unfolding calledOnce_def using count_list_0_iff[of "trace p"] by (metis gr0I not_gr_zero)

lemma calledOnce_ruleDo:
  assumes "calledOnce p" shows "calledOnce (snd (ruleDo k p))"
proof (cases "k < length (closures p) \<and> \<not> alreadyDone (closures p ! k)")
  case False
  with assms show ?thesis by (auto simp: ruleDo_def Let_def)
next
  case True
  then have k: "k < length (closures p)" and nd: "\<not> alreadyDone (closures p ! k)" by simp_all
  from assms nd k have zero: "count_list (trace p) (Called k) = 0"
    unfolding calledOnce_alt by (metis not_gr_zero)
  let ?cs = "(closures p)[k := (closures p ! k)\<lparr>alreadyDone := True\<rparr>]"
  let ?q = "snd (ruleDo k p)"
  have cs: "closures ?q = ?cs"
    using True by (auto simp: ruleDo_def Let_def storeOutputs_closures)
  have cnt: "\<And>j. j \<noteq> k \<Longrightarrow> count_list (trace ?q) (Called j) = count_list (trace p) (Called j)"
    using True by (auto simp: ruleDo_def Let_def storeOutputs_Called)
  have cntk: "count_list (trace ?q) (Called k) \<le> 1"
    using True zero by (auto simp: ruleDo_def Let_def storeOutputs_Called)
  show ?thesis unfolding calledOnce_alt
  proof (intro allI conjI impI)
    fix j show "count_list (trace ?q) (Called j) \<le> 1"
      using cnt[of j] cntk assms unfolding calledOnce_alt by (cases "j = k") auto
  next
    fix j assume "0 < count_list (trace ?q) (Called j)"
    then show "j < length (closures ?q)"
      using cnt[of j] k assms cs unfolding calledOnce_alt by (cases "j = k") auto
  next
    fix j assume a: "0 < count_list (trace ?q) (Called j)"
    show "alreadyDone (closures ?q ! j)"
    proof (cases "j = k")
      case True
      then show ?thesis using cs k by simp
    next
      case False
      with a cnt[of j] assms have "j < length (closures p)" "alreadyDone (closures p ! j)"
        unfolding calledOnce_alt by auto
      with False cs k show ?thesis by (simp add: nth_list_update)
    qed
  qed
qed


lemma calledOnce_runDo:
  assumes "calledOnce p" and "runDo env act (noteExec p t s) = (r, p')"
  shows "calledOnce p'"
proof -
  have n: "calledOnce (noteExec p t s)"
    using assms(1) by (simp add: calledOnce_def noteExec_def)
  show ?thesis
  proof (cases act)
    case (RuleDo k)
    with assms(2) calledOnce_ruleDo[OF n, of k] show ?thesis by simp
  next
    case (PtrPartialDo T)
    with assms(2) n show ?thesis by (auto simp: ptrPartialDo_def calledOnce_def)
  next
    case (PtrCompleteDo T flds ii)
    with assms(2) n show ?thesis
      by (auto simp: ptrCompleteDo_def callInit_def calledOnce_def Let_def
          split: option.splits val.splits prod.splits if_splits)
  next
    case (ValPartialDo T)
    with assms(2) n show ?thesis
      by (auto simp: valPartialDo_def calledOnce_def split: option.splits val.splits)
  qed
qed

lemma calledOnce_AddRule:
  assumes "calledOnce p" and "AddRule env p f = (r, p')"
  shows "calledOnce p'"
proof (cases "customProvide env (length (closures p)) f")
  case (Inl e)
  with assms show ?thesis by (simp add: AddRule_def)
next
  case (Inr ci)
  obtain c inits where ci: "ci = (c, inits)" by (cases ci)
  from assms(2) Inr ci have i: "install (p\<lparr>closures := closures p @ [c]\<rparr>) inits = (r, p')"
    by (simp add: AddRule_def)
  from install_tasks[OF i] have "closures p' = closures p @ [c]" "trace p' = trace p" by simp_all
  with assms(1) show ?thesis unfolding calledOnce_def by (auto simp: nth_append)
qed

lemma lifetime_calledOnce: "lifetime env p \<Longrightarrow> calledOnce p"
proof (induction rule: lifetime.induct)
  case fresh
  show ?case by (simp add: calledOnce_def emptyProvider_def)
next
  case (addRule p provideFn r p')
  then show ?case using calledOnce_AddRule by blast
next
  case (provide p n vars args r p' vars')
  show ?case
    by (rule Provide_blind[where P=calledOnce, OF provide.hyps(2) provide.IH])
       (use calledOnce_blind calledOnce_runDo in blast)+
qed

text \<open>
  C3. At every moment of the life of a Provider, errors included, the constructor of each
  rule has been invoked at most once, however many tasks share its action and however
  many \<open>Provide\<close> calls resolved them. The latch does it: an invocation of the shared
  action with \<open>alreadyDone\<close> set returns success and leaves the Provider as it is. And
  the scheduler does not run the action of a Done task again: an iteration of \<open>do\<close> that
  finds a Done task on top of the stack only pops it.
\<close>

theorem constructor_runs_at_most_once:
  assumes "lifetime env p"
  shows "count_list (trace p) (Called k) \<le> 1
       \<and> (k < length (closures p) \<and> alreadyDone (closures p ! k)
            \<longrightarrow> runDo env (RuleDo k) p = (None, p))
       \<and> (stack \<noteq> [] \<and> is_done p (last stack)
            \<longrightarrow> doIter env p stack nd = Inr (p, butlast stack, nd))"
proof -
  have "count_list (trace p) (Called k) \<le> 1"
    using lifetime_calledOnce[OF assms] unfolding calledOnce_def by blast
  moreover have "k < length (closures p) \<and> alreadyDone (closures p ! k)
            \<longrightarrow> runDo env (RuleDo k) p = (None, p)"
    by (simp add: ruleDo_def Let_def)
  moreover have "stack \<noteq> [] \<and> is_done p (last stack)
            \<longrightarrow> doIter env p stack nd = Inr (p, butlast stack, nd)"
    by (auto simp: is_done_def doIter_def lookupState_def finishTask_def Let_def
        split: option.splits)
  ultimately show ?thesis by blast
qed

lemma ruleXY_twice_lifetime:
  "lifetime exEnv (after (after (providerOf [ruleXY]) [PointerTo 0 tX]) [PointerTo 1 tY])"
proof -
  have "lifetime exEnv (providerOf [ruleXY])"
    by (rule providerOf_lifetime) (simp add: model_defs)
  then have "lifetime exEnv (after (providerOf [ruleXY]) [PointerTo 0 tX])"
    by (rule after_lifetime) (simp add: model_defs)
  then show ?thesis
    by (rule after_lifetime) (simp add: model_defs)
qed

theorem constructor_runs_at_most_once_witness:
  "count_list (trace (after (after (providerOf [ruleXY]) [PointerTo 0 tX]) [PointerTo 1 tY]))
     (Called 0) \<le> 1
   \<and> trace (after (after (providerOf [ruleXY]) [PointerTo 0 tX]) [PointerTo 1 tY])
     = [Exec (Task tX False) [] [], Called 0, Stored tX, Stored tY, Exec (Task tY False) [] []]"
proof -
  have "trace (after (after (providerOf [ruleXY]) [PointerTo 0 tX]) [PointerTo 1 tY])
     = [Exec (Task tX False) [] [], Called 0, Stored tX, Stored tY, Exec (Task tY False) [] []]"
    by (simp add: model_defs)
  with constructor_runs_at_most_once[OF ruleXY_twice_lifetime, of 0 "[]" "[]"]
  show ?thesis by blast
qed

section \<open>Partial tasks are completed before Provide returns\<close>

lemma execTasks_append: "execTasks (xs @ ys) = execTasks xs @ execTasks ys"
  by (induction xs rule: execTasks.induct) auto



lemma executed_blind [simp]: "executed (p\<lparr>tasks := m\<rparr>) = executed p"
  by (simp add: executed_def)

lemma executed_markDone [simp]: "executed (markDone p t s) = executed p"
  by (simp add: executed_def markDone_def)

lemma executed_noteExec [simp]: "executed (noteExec p t s) = executed p @ [t]"
  by (simp add: executed_def noteExec_def execTasks_append)

















section \<open>A completed type has a value\<close>

subsection \<open>What the actions do to the closures and the ValueStore\<close>












subsection \<open>The shape of tasks and the stored values\<close>





lemma noteExec_frame [simp]:
  "closures (noteExec p t s) = closures p" "values' (noteExec p t s) = values' p"
  "heap (noteExec p t s) = heap p"
  by (simp_all add: noteExec_def)

lemma markDone_frame [simp]:
  "closures (markDone p t s) = closures p" "values' (markDone p t s) = values' p"
  "heap (markDone p t s) = heap p" "trace (markDone p t s) = trace p"
  by (simp_all add: markDone_def)











subsection \<open>The errors of a walk\<close>

















end
